theory Spec2Isabelle
  imports Main
begin

section \<open>The pipeline hook: data model\<close>

text \<open>
  The hook \<^verbatim>\<open>usePipeline\<close> keeps the progress of one pipeline run in React state
  cells and a ref. Numbers of the payload are modelled as \<open>int\<close>, strings as \<open>string\<close>,
  an optional field as an \<open>option\<close> (\<open>None\<close> for an absent field), the set of completed
  steps as a set, and the table of step data as a map from its keys to records.
  Records share one name space, so the fields of the nested payload records and of
  \<^verbatim>\<open>StepData\<close> carry a prefix where the source reuses a field name or uses a word
  that Isabelle reserves.
\<close>

record ToolRow =
  name :: string
  tool_method :: string
  path :: string
  safety :: string
  execution :: string
  rateLimit :: int

record TestStepDetail =
  action :: string
  success :: bool
  step_duration_ms :: int
  step_error :: string

record TestResultDetail =
  test_name :: string
  description :: string
  test_passed :: bool
  duration_ms :: int
  summary :: string
  narrative :: string
  analysis :: string
  steps :: "TestStepDetail list"

text \<open>
  An event as it comes out of \<^verbatim>\<open>JSON.parse\<close>. The status is kept as a string: the
  reducer compares it with \<^verbatim>\<open>"running"\<close>, \<^verbatim>\<open>"done"\<close> and \<^verbatim>\<open>"error"\<close> and has a
  default branch for anything else.
\<close>

record PipelineEvent =
  step :: string
  status :: string
  items :: "string list"
  sandbox :: "string option"
  toolRows :: "ToolRow list option"
  testResults :: "TestResultDetail list option"
  passed :: "int option"
  total :: "int option"

datatype stepStatus = Pending | Running | Done | Error

record StepData =
  sd_items :: "string list"
  sd_status :: stepStatus
  sd_toolRows :: "ToolRow list option"
  sd_testResults :: "TestResultDetail list option"
  sd_passed :: "int option"
  sd_total :: "int option"
  sd_sandbox :: "string option"

text \<open>
  The two step cells hold JavaScript numbers. The reducer computes them with
  \<^verbatim>\<open>Math.min\<close> and \<^verbatim>\<open>Math.max\<close> from what the lookup in the step table returns, and that
  can be a value that is no number, so a cell holds an integer or \<^verbatim>\<open>NaN\<close>.
\<close>

datatype jsnum = Num int | NaN

text \<open>
  What the lookup \<^verbatim>\<open>STEP_INDEX_MAP[event.step]\<close> can return besides \<^verbatim>\<open>undefined\<close>: the
  number of a declared entry, or the function or object that the table, a plain object
  literal, inherits from \<^verbatim>\<open>Object.prototype\<close> under that name. The same values are the
  members of the completed set and, turned into property keys, the keys of the step
  data; an inherited value is identified by the name it is found under.
\<close>

datatype stepKey = Ordinal int | Inherited string

text \<open>
  The state of the hook: the six \<^verbatim>\<open>useState\<close> cells and the ref
  \<^verbatim>\<open>userNavigatedRef\<close>. The spec's \<open>following\<close> is \<open>\<not> userNavigated\<close>.
\<close>

record pipelineState =
  isRunning :: bool
  activeStep :: jsnum
  viewedStep :: jsnum
  userNavigated :: bool
  completedSteps :: "stepKey set"
  stepData :: "stepKey \<rightharpoonup> StepData"
  error :: "string option"

definition MAX_STEP :: int where
  "MAX_STEP = 11"

text \<open>
  The entries that the table from backend step identifiers to step indices declares:
  its own properties.
\<close>

definition STEP_INDEX_MAP :: "string \<rightharpoonup> int" where
  "STEP_INDEX_MAP = map_of
     [(''clone'', 1),
      (''deploy-sandbox'', 2),
      (''extract'', 3),
      (''ingest'', 4),
      (''discover'', 5),
      (''schema'', 6),
      (''policy'', 7),
      (''generate'', 8),
      (''mcp-test'', 9),
      (''deploy'', 10),
      (''user-test'', 11)]"

text \<open>
  The property names of \<^verbatim>\<open>Object.prototype\<close>, which every object literal inherits. A
  property read looks among the own properties first and then along the prototype
  chain, and gives \<^verbatim>\<open>undefined\<close> (here \<open>None\<close>) only when both fail.
\<close>

definition OBJECT_PROTOTYPE_KEYS :: "string list" where
  "OBJECT_PROTOTYPE_KEYS =
     [''constructor'', ''hasOwnProperty'', ''isPrototypeOf'', ''propertyIsEnumerable'',
      ''toLocaleString'', ''toString'', ''valueOf'', ''__proto__'',
      ''__defineGetter__'', ''__defineSetter__'', ''__lookupGetter__'', ''__lookupSetter__'']"

definition lookupStep :: "string \<Rightarrow> stepKey option" where
  "lookupStep k =
     (case STEP_INDEX_MAP k of
        Some n \<Rightarrow> Some (Ordinal n)
      | None \<Rightarrow> (if k \<in> set OBJECT_PROTOTYPE_KEYS then Some (Inherited k) else None))"

text \<open>
  The number that \<^verbatim>\<open>Math.min\<close> makes of its argument \<^verbatim>\<open>stepIdx\<close>, and of \<^verbatim>\<open>stepIdx + 1\<close>:
  a function or an object converts to \<^verbatim>\<open>NaN\<close>, and adding 1 to one gives a string that
  converts to \<^verbatim>\<open>NaN\<close> as well.
\<close>

fun toNumber :: "stepKey \<Rightarrow> jsnum" where
  "toNumber (Ordinal n) = Num n"
| "toNumber (Inherited k) = NaN"

fun plusOne :: "stepKey \<Rightarrow> jsnum" where
  "plusOne (Ordinal n) = Num (n + 1)"
| "plusOne (Inherited k) = NaN"

text \<open>\<^verbatim>\<open>Math.min\<close> and \<^verbatim>\<open>Math.max\<close>: \<^verbatim>\<open>NaN\<close> as soon as one argument is.\<close>

fun js_min :: "jsnum \<Rightarrow> jsnum \<Rightarrow> jsnum" where
  "js_min (Num a) (Num b) = Num (min a b)"
| "js_min a b = NaN"

fun js_max :: "jsnum \<Rightarrow> jsnum \<Rightarrow> jsnum" where
  "js_max (Num a) (Num b) = Num (max a b)"
| "js_max a b = NaN"

text \<open>Strict equality \<^verbatim>\<open>===\<close> on numbers: \<^verbatim>\<open>NaN\<close> equals nothing, itself included.\<close>

fun strictEquals :: "jsnum \<Rightarrow> jsnum \<Rightarrow> bool" where
  "strictEquals (Num a) (Num b) = (a = b)"
| "strictEquals a b = False"

definition initialState :: pipelineState where
  "initialState =
     \<lparr>isRunning = False, activeStep = Num 0, viewedStep = Num 0, userNavigated = False,
      completedSteps = {}, stepData = Map.empty, error = None\<rparr>"

section \<open>The event reducer\<close>

text \<open>\<^verbatim>\<open>Array.prototype.join\<close> on an array of strings.\<close>

fun join :: "string \<Rightarrow> string list \<Rightarrow> string" where
  "join sep [] = []"
| "join sep [x] = x"
| "join sep (x # y # ys) = x @ sep @ join sep (y # ys)"

text \<open>
  The record \<^verbatim>\<open>data\<close> that \<^verbatim>\<open>handleEvent\<close> builds from the event alone. An array is
  always truthy, so \<^verbatim>\<open>toolRows\<close> and \<^verbatim>\<open>testResults\<close> are copied whenever present;
  \<^verbatim>\<open>passed\<close> and \<^verbatim>\<open>total\<close> are copied unless undefined; \<^verbatim>\<open>sandbox\<close> is copied when
  truthy, that is present and not the empty string.
\<close>

definition eventData :: "PipelineEvent \<Rightarrow> StepData" where
  "eventData event =
     \<lparr>sd_items = items event,
      sd_status = (if status event = ''done'' then Done
                   else if status event = ''error'' then Error else Running),
      sd_toolRows = toolRows event,
      sd_testResults = testResults event,
      sd_passed = passed event,
      sd_total = total event,
      sd_sandbox = (case sandbox event of
                      None \<Rightarrow> None
                    | Some b \<Rightarrow> (if b = [] then None else Some b))\<rparr>"

definition handleEvent :: "pipelineState \<Rightarrow> PipelineEvent \<Rightarrow> pipelineState" where
  "handleEvent s event =
     (if step event = ''pipeline'' then
        (if status event = ''error''
         then s\<lparr>error := Some (join ''; '' (items event))\<rparr>
         else s)
      else
        (case lookupStep (step event) of
           None \<Rightarrow> s
         | Some stepIdx \<Rightarrow>
             (let data = eventData event;
                  s1 = s\<lparr>stepData := (stepData s)(stepIdx \<mapsto> data)\<rparr>
              in if status event = ''running'' then
                   (let clamped = js_min (toNumber stepIdx) (Num MAX_STEP)
                    in s1\<lparr>activeStep := clamped,
                          viewedStep := (if \<not> userNavigated s1 then clamped
                                         else viewedStep s1)\<rparr>)
                 else if status event = ''done'' then
                   (let next = js_min (plusOne stepIdx) (Num MAX_STEP)
                    in s1\<lparr>completedSteps := insert stepIdx (completedSteps s1),
                          activeStep := js_max (activeStep s1) next,
                          viewedStep := (if \<not> userNavigated s1
                                         then js_max (viewedStep s1) next
                                         else viewedStep s1)\<rparr>)
                 else s1)))"

section \<open>Navigation and cancellation\<close>

definition navigateToStep :: "pipelineState \<Rightarrow> int \<Rightarrow> pipelineState" where
  "navigateToStep s index =
     (let clamped = min (max index 0) MAX_STEP
      in s\<lparr>userNavigated := True, viewedStep := Num clamped\<rparr>)"

definition cancel :: "pipelineState \<Rightarrow> pipelineState" where
  "cancel s = s\<lparr>isRunning := False\<rparr>"

text \<open>
  What can happen to the state between two renders of one run: the reducer handles an
  event, the user navigates, or the run is cancelled.
\<close>

datatype operation = Event PipelineEvent | Navigate int | Cancel

fun apply_operation :: "pipelineState \<Rightarrow> operation \<Rightarrow> pipelineState" where
  "apply_operation s (Event event) = handleEvent s event"
| "apply_operation s (Navigate index) = navigateToStep s index"
| "apply_operation s Cancel = cancel s"

definition run_operations :: "pipelineState \<Rightarrow> operation list \<Rightarrow> pipelineState" where
  "run_operations s ops = foldl apply_operation s ops"

fun is_navigate :: "operation \<Rightarrow> bool" where
  "is_navigate (Navigate index) = True"
| "is_navigate other = False"

section \<open>The stream decoder\<close>

text \<open>
  Text is modelled as a list of characters, each standing for one code unit of the
  decoded text. \<^verbatim>\<open>split_nl\<close> is \<^verbatim>\<open>buffer.split("\n")\<close>: it always returns at least one
  piece, and the last piece is what follows the last newline.
\<close>

definition newline :: char where
  "newline = CHR 0x0A"

fun split_nl :: "string \<Rightarrow> string list" where
  "split_nl [] = [[]]"
| "split_nl (c # cs) =
     (if c = newline then [] # split_nl cs
      else (c # hd (split_nl cs)) # tl (split_nl cs))"

definition startsWith :: "string \<Rightarrow> string \<Rightarrow> bool" where
  "startsWith line p = (take (length p) line = p)"

text \<open>
  The body of the \<^verbatim>\<open>for\<close> loop over the lines. \<^verbatim>\<open>JSON.parse\<close> is a parameter:
  \<open>parse payload = None\<close> stands for a payload on which the \<^verbatim>\<open>try\<close> block throws, and
  the \<^verbatim>\<open>catch\<close> then skips the line. Whatever throws in the block (the parser, or the
  reducer reading a field of a value that is no event) throws before the first cell
  is set, so a skipped line leaves the state as it was; \<open>Some event\<close> is a payload that
  parses to an event of the declared type.
\<close>

definition processLine ::
  "(string \<Rightarrow> PipelineEvent option) \<Rightarrow> pipelineState \<Rightarrow> string \<Rightarrow> pipelineState" where
  "processLine parse s line =
     (if \<not> startsWith line ''data: '' then s
      else (case parse (drop 6 line) of
              None \<Rightarrow> s
            | Some event \<Rightarrow> handleEvent s event))"

definition processLines ::
  "(string \<Rightarrow> PipelineEvent option) \<Rightarrow> pipelineState \<Rightarrow> string list \<Rightarrow> pipelineState" where
  "processLines parse s lines = foldl (processLine parse) s lines"

text \<open>
  The \<^verbatim>\<open>while (true)\<close> loop over the reads of the stream, on the list of the chunks
  that the reader delivers before it reports \<^verbatim>\<open>done\<close>. The state of the loop is the
  hook state and the accumulation buffer; \<^verbatim>\<open>lines.pop() || ""\<close> is the last piece
  of the split. When the chunks are exhausted the loop breaks and the buffer is
  dropped with the scope.
\<close>

fun readLoop ::
  "(string \<Rightarrow> PipelineEvent option) \<Rightarrow> pipelineState \<times> string \<Rightarrow> string list
     \<Rightarrow> pipelineState \<times> string" where
  "readLoop parse (s, buffer) [] = (s, buffer)"
| "readLoop parse (s, buffer) (chunk # rest) =
     (let lines = split_nl (buffer @ chunk)
      in readLoop parse (processLines parse s (butlast lines), last lines) rest)"

definition decodeStream ::
  "(string \<Rightarrow> PipelineEvent option) \<Rightarrow> pipelineState \<Rightarrow> string list \<Rightarrow> pipelineState" where
  "decodeStream parse s chunks = fst (readLoop parse (s, []) chunks)"

text \<open>A line is malformed when the loop body skips it.\<close>

definition malformed :: "(string \<Rightarrow> PipelineEvent option) \<Rightarrow> string \<Rightarrow> bool" where
  "malformed parse line =
     (\<not> startsWith line ''data: '' \<or> parse (drop 6 line) = None)"

text \<open>The text of a stream that carries the given lines, each closed by a newline.\<close>

definition frame :: "string list \<Rightarrow> string" where
  "frame lines = concat (map (\<lambda>l. l @ [newline]) lines)"

section \<open>Starting a run\<close>

text \<open>
  An awaited promise either rejects with an error (its name and message) or fulfils.
  The two responses carry what \<^verbatim>\<open>startPipeline\<close> reads from them.
\<close>

datatype 'a outcome = Threw string string | Returned 'a

record startResponse =
  start_ok :: bool
  statusText :: string
  run_id :: "string outcome"

record streamResponse =
  stream_ok :: bool
  has_body :: bool
  body_chunks :: "string list"
  body_ending :: "unit outcome"

datatype request = PostStart "string list" | GetStream string

text \<open>The synchronous head of \<^verbatim>\<open>startPipeline\<close>: every cell is reset, step 0 is completed.\<close>

definition startReset :: "pipelineState \<Rightarrow> pipelineState" where
  "startReset s =
     s\<lparr>isRunning := True, error := None, completedSteps := insert (Ordinal 0) {},
       stepData := Map.empty, userNavigated := False, activeStep := Num 1,
       viewedStep := Num 1\<rparr>"

text \<open>The \<^verbatim>\<open>catch\<close> and \<^verbatim>\<open>finally\<close> blocks, for an error with the given name and message.\<close>

definition failed :: "string \<Rightarrow> string \<Rightarrow> pipelineState \<Rightarrow> pipelineState" where
  "failed nm msg s =
     (if nm \<noteq> ''AbortError''
      then s\<lparr>error := Some (if msg = [] then ''Pipeline failed'' else msg)\<rparr>
      else s)\<lparr>isRunning := False\<rparr>"

text \<open>
  \<^verbatim>\<open>startPipeline\<close> on the hook state and the log of the requests issued so far, given
  what the two \<^verbatim>\<open>fetch\<close> calls answer.
\<close>

definition startPipeline ::
  "(string \<Rightarrow> PipelineEvent option) \<Rightarrow> startResponse outcome \<Rightarrow> streamResponse outcome
     \<Rightarrow> string list \<Rightarrow> pipelineState \<times> request list \<Rightarrow> pipelineState \<times> request list" where
  "startPipeline parse startRes streamRes urls w =
     (let s0 = startReset (fst w);
          log1 = snd w @ [PostStart urls]
      in case startRes of
           Threw nm msg \<Rightarrow> (failed nm msg s0, log1)
         | Returned r \<Rightarrow>
             if \<not> start_ok r
             then (failed ''Error'' (''Failed to start pipeline: '' @ statusText r) s0, log1)
             else (case run_id r of
                     Threw nm msg \<Rightarrow> (failed nm msg s0, log1)
                   | Returned rid \<Rightarrow>
                       (let log2 = log1 @ [GetStream rid]
                        in case streamRes of
                             Threw nm msg \<Rightarrow> (failed nm msg s0, log2)
                           | Returned sr \<Rightarrow>
                               if \<not> stream_ok sr \<or> \<not> has_body sr
                               then (failed ''Error''
                                       ''Failed to connect to pipeline stream'' s0, log2)
                               else (let s1 = decodeStream parse s0 (body_chunks sr)
                                     in case body_ending sr of
                                          Threw nm msg \<Rightarrow> (failed nm msg s1, log2)
                                        | Returned u \<Rightarrow> (s1\<lparr>isRunning := False\<rparr>, log2)))))"

text \<open>
  \<^verbatim>\<open>UrlInputStep.handleStart\<close>. A string is truthy when it is not empty, so the
  filter keeps the entries that \<^verbatim>\<open>trim\<close> does not empty. The white space and line
  terminator code points below 256 are listed; \<open>onStart\<close> is the callback property,
  which \<^verbatim>\<open>StepContent\<close> binds to \<^verbatim>\<open>startPipeline\<close>.
\<close>

definition isWhiteSpace :: "char \<Rightarrow> bool" where
  "isWhiteSpace c =
     (c \<in> {CHR 0x09, CHR 0x0A, CHR 0x0B, CHR 0x0C, CHR 0x0D, CHR 0x20, CHR 0xA0})"

definition trim :: "string \<Rightarrow> string" where
  "trim u = rev (dropWhile isWhiteSpace (rev (dropWhile isWhiteSpace u)))"

definition handleStart :: "string list \<Rightarrow> (string list \<Rightarrow> 'w \<Rightarrow> 'w) \<Rightarrow> 'w \<Rightarrow> 'w" where
  "handleStart urls onStart w =
     (let valid = filter (\<lambda>u. trim u \<noteq> []) urls
      in if length valid \<noteq> 0 then onStart valid w else w)"

definition blank :: "string \<Rightarrow> bool" where
  "blank u = list_all isWhiteSpace u"

section \<open>Example inputs\<close>

text \<open>An event that carries the three required fields and no optional one.\<close>

definition plainEvent :: "string \<Rightarrow> string \<Rightarrow> string list \<Rightarrow> PipelineEvent" where
  "plainEvent st stat its =
     \<lparr>step = st, status = stat, items = its, sandbox = None, toolRows = None,
      testResults = None, passed = None, total = None\<rparr>"

text \<open>A tool row, and an event for step 5 that carries it.\<close>

definition demoRow :: ToolRow where
  "demoRow =
     \<lparr>name = ''listItems'', tool_method = ''GET'', path = ''/items'',
      safety = ''Read'', execution = ''AutoExecute'', rateLimit = 60\<rparr>"

definition toolEvent :: PipelineEvent where
  "toolEvent =
     (plainEvent ''discover'' ''running'' [''mining''])\<lparr>toolRows := Some [demoRow]\<rparr>"

text \<open>
  A stand-in for \<^verbatim>\<open>JSON.parse\<close> that accepts two payloads and throws on every other.
\<close>

definition demoParse :: "string \<Rightarrow> PipelineEvent option" where
  "demoParse payload =
     (if payload = ''clone-running'' then Some (plainEvent ''clone'' ''running'' [''cloning''])
      else if payload = ''clone-done'' then Some (plainEvent ''clone'' ''done'' [''cloned''])
      else None)"

section \<open>Invariants\<close>

text \<open>An event whose step is no name that the step table inherits.\<close>

definition ownOrAbsent :: "PipelineEvent \<Rightarrow> bool" where
  "ownOrAbsent event = (step event \<notin> set OBJECT_PROTOTYPE_KEYS)"

fun eventsOwnOrAbsent :: "operation \<Rightarrow> bool" where
  "eventsOwnOrAbsent (Event event) = ownOrAbsent event"
| "eventsOwnOrAbsent other = True"

text \<open>The view follows the run: no manual navigation yet, and both ordinals agree.\<close>

definition following :: "pipelineState \<Rightarrow> bool" where
  "following s = (\<not> userNavigated s \<and> strictEquals (viewedStep s) (activeStep s))"

text \<open>A step cell holds an ordinal of the registry.\<close>

fun withinSteps :: "jsnum \<Rightarrow> bool" where
  "withinSteps (Num a) = (0 \<le> a \<and> a \<le> MAX_STEP)"
| "withinSteps NaN = False"

text \<open>Completed ordinals and the keys of the step data lie within the registry.\<close>

fun ordinalBetween :: "int \<Rightarrow> int \<Rightarrow> stepKey \<Rightarrow> bool" where
  "ordinalBetween lo hi (Ordinal n) = (lo \<le> n \<and> n \<le> hi)"
| "ordinalBetween lo hi (Inherited k) = False"

definition in_range :: "pipelineState \<Rightarrow> bool" where
  "in_range s =
     ((\<forall>k \<in> completedSteps s. ordinalBetween 0 MAX_STEP k)
      \<and> (\<forall>k \<in> dom (stepData s). ordinalBetween 1 MAX_STEP k))"

section \<open>Properties of the reducer\<close>

lemma STEP_INDEX_MAP_range:
  "STEP_INDEX_MAP k = Some n \<Longrightarrow> 1 \<le> n \<and> n \<le> MAX_STEP"
  by (simp add: STEP_INDEX_MAP_def MAX_STEP_def split: if_splits)

lemma STEP_INDEX_MAP_pipeline: "STEP_INDEX_MAP ''pipeline'' = None"
  by (simp add: STEP_INDEX_MAP_def)

lemma STEP_INDEX_MAP_inherited:
  "k \<in> set OBJECT_PROTOTYPE_KEYS \<Longrightarrow> STEP_INDEX_MAP k = None"
proof -
  have "list_all (\<lambda>k. STEP_INDEX_MAP k = None) OBJECT_PROTOTYPE_KEYS"
    unfolding OBJECT_PROTOTYPE_KEYS_def STEP_INDEX_MAP_def by simp
  then show "k \<in> set OBJECT_PROTOTYPE_KEYS \<Longrightarrow> STEP_INDEX_MAP k = None"
    by (simp add: list_all_iff)
qed

lemma lookupStep_own: "STEP_INDEX_MAP k = Some n \<Longrightarrow> lookupStep k = Some (Ordinal n)"
  by (simp add: lookupStep_def)

lemma lookupStep_inherited:
  "k \<in> set OBJECT_PROTOTYPE_KEYS \<Longrightarrow> lookupStep k = Some (Inherited k)"
  by (simp add: lookupStep_def STEP_INDEX_MAP_inherited)

lemma lookupStep_absent:
  "STEP_INDEX_MAP k = None \<Longrightarrow> k \<notin> set OBJECT_PROTOTYPE_KEYS \<Longrightarrow> lookupStep k = None"
  by (simp add: lookupStep_def)

lemma pipeline_not_inherited: "''pipeline'' \<notin> set OBJECT_PROTOTYPE_KEYS"
  by (simp add: OBJECT_PROTOTYPE_KEYS_def)

lemma js_max_NaN: "js_max a NaN = NaN"
  by (cases a) simp_all

lemma handleEvent_meta:
  "step event = ''pipeline'' \<Longrightarrow>
     handleEvent s event =
       (if status event = ''error'' then s\<lparr>error := Some (join ''; '' (items event))\<rparr> else s)"
  by (simp add: handleEvent_def)

lemma handleEvent_unmapped:
  "lookupStep (step event) = None \<Longrightarrow> step event \<noteq> ''pipeline'' \<Longrightarrow> handleEvent s event = s"
  by (simp add: handleEvent_def)

lemma handleEvent_mapped:
  assumes "STEP_INDEX_MAP (step event) = Some n"
  shows "handleEvent s event =
     (if status event = ''running'' then
        s\<lparr>stepData := (stepData s)(Ordinal n \<mapsto> eventData event),
          activeStep := Num n,
          viewedStep := (if userNavigated s then viewedStep s else Num n)\<rparr>
      else if status event = ''done'' then
        s\<lparr>stepData := (stepData s)(Ordinal n \<mapsto> eventData event),
          completedSteps := insert (Ordinal n) (completedSteps s),
          activeStep := js_max (activeStep s) (Num (min (n + 1) MAX_STEP)),
          viewedStep := (if userNavigated s then viewedStep s
                         else js_max (viewedStep s) (Num (min (n + 1) MAX_STEP)))\<rparr>
      else s\<lparr>stepData := (stepData s)(Ordinal n \<mapsto> eventData event)\<rparr>)"
proof -
  from assms have ne: "step event \<noteq> ''pipeline''"
    using STEP_INDEX_MAP_pipeline by auto
  from assms have "n \<le> MAX_STEP" using STEP_INDEX_MAP_range by blast
  then have "min n MAX_STEP = n" by simp
  with assms ne show ?thesis
    by (simp add: handleEvent_def lookupStep_own Let_def)
qed

lemma handleEvent_inherited:
  assumes "step event \<in> set OBJECT_PROTOTYPE_KEYS"
  shows "handleEvent s event =
     (if status event = ''running'' then
        s\<lparr>stepData := (stepData s)(Inherited (step event) \<mapsto> eventData event),
          activeStep := NaN,
          viewedStep := (if userNavigated s then viewedStep s else NaN)\<rparr>
      else if status event = ''done'' then
        s\<lparr>stepData := (stepData s)(Inherited (step event) \<mapsto> eventData event),
          completedSteps := insert (Inherited (step event)) (completedSteps s),
          activeStep := NaN,
          viewedStep := (if userNavigated s then viewedStep s else NaN)\<rparr>
      else s\<lparr>stepData := (stepData s)(Inherited (step event) \<mapsto> eventData event)\<rparr>)"
proof -
  from assms have ne: "step event \<noteq> ''pipeline''"
    using pipeline_not_inherited by auto
  with assms show ?thesis
    by (simp add: handleEvent_def lookupStep_inherited Let_def js_max_NaN)
qed

lemma handleEvent_cases:
  obtains (meta) "step e = ''pipeline''"
  | (unmapped) "step e \<noteq> ''pipeline''" "lookupStep (step e) = None"
  | (mapped) n where "STEP_INDEX_MAP (step e) = Some n"
  | (inherited) "step e \<in> set OBJECT_PROTOTYPE_KEYS"
proof (cases "STEP_INDEX_MAP (step e)")
  case (Some n)
  then show ?thesis by (rule mapped)
next
  case None
  show ?thesis
  proof (cases "step e \<in> set OBJECT_PROTOTYPE_KEYS")
    case True
    then show ?thesis by (rule inherited)
  next
    case False
    with None have absent: "lookupStep (step e) = None" by (simp add: lookupStep_absent)
    show ?thesis
    proof (cases "step e = ''pipeline''")
      case True
      then show ?thesis by (rule meta)
    next
      case False
      then show ?thesis using absent by (rule unmapped)
    qed
  qed
qed

text \<open>
  Claim C7. For a meta-event (its step is \<^verbatim>\<open>"pipeline"\<close>): when the status is
  \<^verbatim>\<open>"error"\<close> the error cell becomes the items joined with \<^verbatim>\<open>"; "\<close> and the two
  ordinals, the completed set, the step data, the navigation flag and the running flag
  keep their values; with any other status the whole state is unchanged.
\<close>

theorem meta_event_sets_error_only:
  "step event = ''pipeline'' \<Longrightarrow>
     (status event = ''error'' \<longrightarrow>
        error (handleEvent s event) = Some (join ''; '' (items event))
        \<and> activeStep (handleEvent s event) = activeStep s
        \<and> viewedStep (handleEvent s event) = viewedStep s
        \<and> completedSteps (handleEvent s event) = completedSteps s
        \<and> stepData (handleEvent s event) = stepData s
        \<and> userNavigated (handleEvent s event) = userNavigated s
        \<and> isRunning (handleEvent s event) = isRunning s)
     \<and> (status event \<noteq> ''error'' \<longrightarrow> handleEvent s event = s)"
  by (simp add: handleEvent_meta)

theorem meta_event_sets_error_only_witness:
  "step (plainEvent ''pipeline'' ''error'' [''disk full'', ''quota'']) = ''pipeline''
   \<and> error (handleEvent (startReset initialState)
        (plainEvent ''pipeline'' ''error'' [''disk full'', ''quota''])) = Some ''disk full; quota''
   \<and> activeStep (handleEvent (startReset initialState)
        (plainEvent ''pipeline'' ''error'' [''disk full'', ''quota''])) = Num 1
   \<and> handleEvent (startReset initialState) (plainEvent ''pipeline'' ''done'' [''x''])
       = startReset initialState"
  using meta_event_sets_error_only
          [of "plainEvent ''pipeline'' ''error'' [''disk full'', ''quota'']" "startReset initialState"]
        meta_event_sets_error_only
          [of "plainEvent ''pipeline'' ''done'' [''x'']" "startReset initialState"]
  by (simp add: plainEvent_def startReset_def initialState_def)

text \<open>
  Claim C8. For every integer \<open>x\<close>, \<^verbatim>\<open>navigateToStep\<close> sets the viewed step to \<open>x\<close>
  clamped into \<open>[0, MAX_STEP]\<close> (0 below the range, \<open>MAX_STEP\<close> above it, \<open>x\<close> itself
  inside) and sets the navigation flag, so that following is off; the viewed step is
  a number in range afterwards, whatever it was, and nothing else changes.
\<close>

theorem navigate_clamps:
  "viewedStep (navigateToStep s x)
     = Num (if x < 0 then 0 else if MAX_STEP < x then MAX_STEP else x)
   \<and> withinSteps (viewedStep (navigateToStep s x))
   \<and> userNavigated (navigateToStep s x)
   \<and> activeStep (navigateToStep s x) = activeStep s
   \<and> completedSteps (navigateToStep s x) = completedSteps s
   \<and> stepData (navigateToStep s x) = stepData s
   \<and> error (navigateToStep s x) = error s"
  by (simp add: navigateToStep_def MAX_STEP_def Let_def)

theorem navigate_clamps_witness:
  "viewedStep (navigateToStep initialState (- 4)) = Num 0
   \<and> viewedStep (navigateToStep initialState 40) = Num 11
   \<and> viewedStep (navigateToStep initialState 7) = Num 7
   \<and> viewedStep (navigateToStep (initialState\<lparr>viewedStep := NaN\<rparr>) 7) = Num 7"
  using navigate_clamps [of initialState "- 4"] navigate_clamps [of initialState 40]
        navigate_clamps [of initialState 7]
        navigate_clamps [of "initialState\<lparr>viewedStep := NaN\<rparr>" 7]
  by (simp add: MAX_STEP_def)

subsection \<open>Advancement of the active step\<close>

lemma foldl_handleEvent_completed:
  "completedSteps s \<subseteq> completedSteps (foldl handleEvent s events)"
proof (induction events arbitrary: s)
  case Nil
  show ?case by simp
next
  case (Cons e es)
  have "completedSteps s \<subseteq> completedSteps (handleEvent s e)"
    by (cases e rule: handleEvent_cases)
       (auto simp: handleEvent_meta handleEvent_unmapped handleEvent_mapped
          handleEvent_inherited)
  with Cons show ?case by fastforce
qed

lemma handleEvent_active_own:
  assumes "ownOrAbsent e" "activeStep s = Num a"
  shows "\<exists>b. activeStep (handleEvent s e) = Num b
           \<and> (b < a \<longleftrightarrow>
                status e = ''running'' \<and> (\<exists>n. STEP_INDEX_MAP (step e) = Some n \<and> n < a))"
proof (cases e rule: handleEvent_cases)
  case meta
  with assms show ?thesis by (simp add: handleEvent_meta STEP_INDEX_MAP_pipeline)
next
  case unmapped
  then have "STEP_INDEX_MAP (step e) = None"
    by (simp add: lookupStep_def split: option.splits)
  with unmapped assms show ?thesis by (simp add: handleEvent_unmapped)
next
  case (mapped n)
  with assms show ?thesis by (simp add: handleEvent_mapped)
next
  case inherited
  with assms show ?thesis by (simp add: ownOrAbsent_def)
qed

lemma foldl_handleEvent_active:
  "\<forall>e \<in> set events. status e \<noteq> ''running'' \<and> ownOrAbsent e \<Longrightarrow> activeStep s = Num a \<Longrightarrow>
     \<exists>b. activeStep (foldl handleEvent s events) = Num b \<and> a \<le> b"
proof (induction events arbitrary: s a)
  case Nil
  then show ?case by simp
next
  case (Cons e es)
  from Cons.prems have "ownOrAbsent e" and nr: "status e \<noteq> ''running''" by simp_all
  with Cons.prems(2) obtain c where c: "activeStep (handleEvent s e) = Num c" "\<not> c < a"
    using handleEvent_active_own [of e s a] by auto
  from Cons.prems(1) have "\<forall>e \<in> set es. status e \<noteq> ''running'' \<and> ownOrAbsent e" by simp
  from Cons.IH [OF this c(1)]
  obtain b where "activeStep (foldl handleEvent (handleEvent s e) es) = Num b" "c \<le> b"
    by blast
  with c(2) show ?case by auto
qed

text \<open>
  Claim C1, as stated, fails: after the steps 1 and 2 are done the active step is 3, and
  a \<^verbatim>\<open>running\<close> event for step 1 then sets it to 1.
\<close>

theorem active_step_decreases_counterexample:
  "activeStep (foldl handleEvent (startReset initialState)
      [plainEvent ''clone'' ''done'' [], plainEvent ''deploy-sandbox'' ''done'' []]) = Num 3
   \<and> activeStep (foldl handleEvent (startReset initialState)
      [plainEvent ''clone'' ''done'' [], plainEvent ''deploy-sandbox'' ''done'' [],
       plainEvent ''clone'' ''running'' []]) = Num 1"
  by (simp add: handleEvent_def lookupStep_def startReset_def initialState_def plainEvent_def
        STEP_INDEX_MAP_def MAX_STEP_def Let_def)

text \<open>
  Claim C1, amended. Along every sequence of events the completed set only grows.
  For events whose step is no name that the step table inherits, and an active step
  that is a number: the active step stays a number and does not decrease along a
  sequence without \<^verbatim>\<open>running\<close> events, and a single event makes it smaller exactly when
  it is a \<^verbatim>\<open>running\<close> event for a declared step whose ordinal is below the active step.
\<close>

theorem completed_grows_active_drops_only_on_running:
  "completedSteps s \<subseteq> completedSteps (foldl handleEvent s events)
   \<and> ((\<forall>e \<in> set events. status e \<noteq> ''running'' \<and> ownOrAbsent e) \<and> activeStep s = Num a \<longrightarrow>
        (\<exists>b. activeStep (foldl handleEvent s events) = Num b \<and> a \<le> b))
   \<and> (ownOrAbsent event \<and> activeStep s = Num a \<longrightarrow>
        (\<exists>b. activeStep (handleEvent s event) = Num b
           \<and> (b < a \<longleftrightarrow>
                status event = ''running''
                \<and> (\<exists>n. STEP_INDEX_MAP (step event) = Some n \<and> n < a))))"
  using foldl_handleEvent_completed [of s events] foldl_handleEvent_active [of events s a]
    handleEvent_active_own [of event s a]
  by blast

theorem completed_grows_active_drops_only_on_running_witness:
  "list_all (\<lambda>e. status e \<noteq> ''running'' \<and> ownOrAbsent e)
      [plainEvent ''clone'' ''done'' [], plainEvent ''extract'' ''error'' [''no spec'']]
   \<and> activeStep (startReset initialState) = Num 1
   \<and> activeStep (foldl handleEvent (startReset initialState)
        [plainEvent ''clone'' ''done'' [], plainEvent ''extract'' ''error'' [''no spec'']]) = Num 2
   \<and> completedSteps (startReset initialState) = {Ordinal 0}
   \<and> completedSteps (foldl handleEvent (startReset initialState)
        [plainEvent ''clone'' ''done'' [], plainEvent ''extract'' ''error'' [''no spec'']])
       = {Ordinal 0, Ordinal 1}
   \<and> ownOrAbsent (plainEvent ''extract'' ''running'' [])
   \<and> activeStep (handleEvent (startReset initialState) (plainEvent ''extract'' ''running'' []))
       = Num 3"
  using completed_grows_active_drops_only_on_running
          [of "startReset initialState"
              "[plainEvent ''clone'' ''done'' [], plainEvent ''extract'' ''error'' [''no spec'']]"
              1 "plainEvent ''extract'' ''running'' []"]
  by (auto simp: handleEvent_def lookupStep_def startReset_def initialState_def plainEvent_def
        ownOrAbsent_def OBJECT_PROTOTYPE_KEYS_def STEP_INDEX_MAP_def MAX_STEP_def Let_def)

text \<open>
  Claim C2, as stated, fails on \<^verbatim>\<open>running\<close>: with the active step at 5, a \<^verbatim>\<open>running\<close>
  event for step 1 makes it 1, not the maximum of 5 and 1.
\<close>

theorem running_not_max_counterexample:
  "STEP_INDEX_MAP ''clone'' = Some 1
   \<and> activeStep (handleEvent (startReset initialState)
        (plainEvent ''discover'' ''running'' [])) = Num 5
   \<and> activeStep (handleEvent
        (handleEvent (startReset initialState) (plainEvent ''discover'' ''running'' []))
        (plainEvent ''clone'' ''running'' []))
       \<noteq> Num (max 5 (min 1 MAX_STEP))"
  by (simp add: handleEvent_def lookupStep_def startReset_def initialState_def plainEvent_def
        STEP_INDEX_MAP_def MAX_STEP_def Let_def)

text \<open>
  Claim C2, amended. For an event whose step maps to ordinal \<open>n\<close>: on \<^verbatim>\<open>running\<close> the
  active step becomes \<open>min n MAX_STEP\<close>, whatever it was, and the completed set is
  unchanged; on \<^verbatim>\<open>done\<close>, \<open>n\<close> is added to the completed set and the active step becomes
  \<^verbatim>\<open>Math.max\<close> of its old value and \<open>min (n + 1) MAX_STEP\<close>, whether or not an event of
  step \<open>n + 1\<close> has arrived.
\<close>

theorem active_step_advancement:
  "STEP_INDEX_MAP (step event) = Some n \<Longrightarrow>
     (status event = ''running'' \<longrightarrow>
        activeStep (handleEvent s event) = Num (min n MAX_STEP)
        \<and> completedSteps (handleEvent s event) = completedSteps s)
     \<and> (status event = ''done'' \<longrightarrow>
        completedSteps (handleEvent s event) = insert (Ordinal n) (completedSteps s)
        \<and> activeStep (handleEvent s event)
            = js_max (activeStep s) (Num (min (n + 1) MAX_STEP)))"
  using STEP_INDEX_MAP_range [of "step event" n]
  by (simp add: handleEvent_mapped)

theorem active_step_advancement_witness:
  "STEP_INDEX_MAP (step (plainEvent ''clone'' ''running'' [''cloning u1''])) = Some 1
   \<and> activeStep (handleEvent (startReset initialState)
        (plainEvent ''clone'' ''running'' [''cloning u1''])) = Num 1
   \<and> STEP_INDEX_MAP (step (plainEvent ''user-test'' ''done'' [])) = Some 11
   \<and> completedSteps (handleEvent (startReset initialState)
        (plainEvent ''user-test'' ''done'' [])) = {Ordinal 11, Ordinal 0}
   \<and> activeStep (handleEvent (startReset initialState)
        (plainEvent ''user-test'' ''done'' [])) = Num 11"
proof -
  have a: "STEP_INDEX_MAP (step (plainEvent ''clone'' ''running'' [''cloning u1''])) = Some 1"
    by (simp add: plainEvent_def STEP_INDEX_MAP_def)
  have b: "STEP_INDEX_MAP (step (plainEvent ''user-test'' ''done'' [])) = Some 11"
    by (simp add: plainEvent_def STEP_INDEX_MAP_def)
  show ?thesis
    using a b active_step_advancement [OF a, of "startReset initialState"]
      active_step_advancement [OF b, of "startReset initialState"]
    by (simp add: plainEvent_def startReset_def initialState_def MAX_STEP_def)
qed

subsection \<open>Step data\<close>

text \<open>
  Claim C3, as stated, fails: step 5 holds tool rows from a first event; a second event
  for step 5 without tool rows leaves step 5 with none.
\<close>

theorem optional_field_reset_counterexample:
  "sd_toolRows (the (stepData (handleEvent (startReset initialState) toolEvent) (Ordinal 5)))
     = Some [demoRow]
   \<and> toolRows (plainEvent ''discover'' ''done'' [''mined'']) = None
   \<and> sd_toolRows (the (stepData
        (handleEvent (handleEvent (startReset initialState) toolEvent)
           (plainEvent ''discover'' ''done'' [''mined''])) (Ordinal 5))) = None"
  by (simp add: handleEvent_def lookupStep_def startReset_def initialState_def plainEvent_def
        toolEvent_def eventData_def STEP_INDEX_MAP_def MAX_STEP_def Let_def)

text \<open>
  Claim C3, amended. A mapped event for ordinal \<open>n\<close> replaces the step data of \<open>n\<close> as a
  whole by the record built from that event alone: afterwards every optional field
  holds what the event carries (a missing or empty \<^verbatim>\<open>sandbox\<close> gives none), so a field
  the event omits is absent even if it was stored before. The step data under every
  other key is untouched.
\<close>

theorem step_data_replaced_by_event:
  "STEP_INDEX_MAP (step event) = Some n \<Longrightarrow>
     stepData (handleEvent s event) (Ordinal n) = Some (eventData event)
     \<and> sd_toolRows (eventData event) = toolRows event
     \<and> sd_testResults (eventData event) = testResults event
     \<and> sd_passed (eventData event) = passed event
     \<and> sd_total (eventData event) = total event
     \<and> sd_sandbox (eventData event) = (if sandbox event = Some [] then None else sandbox event)
     \<and> (\<forall>k. k \<noteq> Ordinal n \<longrightarrow> stepData (handleEvent s event) k = stepData s k)"
  by (simp add: handleEvent_mapped eventData_def split: option.splits)

theorem step_data_replaced_by_event_witness:
  "STEP_INDEX_MAP (step toolEvent) = Some 5
   \<and> stepData (handleEvent (startReset initialState) toolEvent) (Ordinal 5)
       = Some \<lparr>sd_items = [''mining''], sd_status = Running, sd_toolRows = Some [demoRow],
               sd_testResults = None, sd_passed = None, sd_total = None, sd_sandbox = None\<rparr>
   \<and> stepData (handleEvent (startReset initialState) toolEvent) (Ordinal 4) = None"
proof -
  have a: "STEP_INDEX_MAP (step toolEvent) = Some 5"
    by (simp add: toolEvent_def plainEvent_def STEP_INDEX_MAP_def)
  show ?thesis
    using a step_data_replaced_by_event [OF a, of "startReset initialState"]
    by (simp add: toolEvent_def plainEvent_def eventData_def startReset_def)
qed

subsection \<open>Following and pinning the view\<close>

lemma strictEquals_iff: "strictEquals x y \<longleftrightarrow> (\<exists>a. x = Num a \<and> y = Num a)"
  by (cases x; cases y) auto

lemma following_handleEvent:
  assumes "ownOrAbsent e" "following s"
  shows "following (handleEvent s e)"
proof -
  from assms(2) obtain a where a: "activeStep s = Num a" "viewedStep s = Num a"
    and nav: "\<not> userNavigated s"
    by (auto simp: following_def strictEquals_iff)
  show ?thesis
  proof (cases e rule: handleEvent_cases)
    case meta
    with assms(2) show ?thesis by (simp add: handleEvent_meta following_def)
  next
    case unmapped
    with assms(2) show ?thesis by (simp add: handleEvent_unmapped)
  next
    case (mapped n)
    with a nav show ?thesis by (simp add: handleEvent_mapped following_def)
  next
    case inherited
    with assms(1) show ?thesis by (simp add: ownOrAbsent_def)
  qed
qed

lemma following_run:
  "\<not> list_ex is_navigate ops \<Longrightarrow> list_all eventsOwnOrAbsent ops \<Longrightarrow> following s \<Longrightarrow>
     following (run_operations s ops)"
proof (induction ops arbitrary: s)
  case Nil
  then show ?case by (simp add: run_operations_def)
next
  case (Cons a ops)
  from Cons.prems have "following (apply_operation s a)"
    by (cases a) (simp_all add: following_handleEvent, simp add: following_def cancel_def)
  with Cons show ?case by (simp add: run_operations_def)
qed

lemma following_startReset: "following (startReset s)"
  by (simp add: following_def startReset_def)

lemma userNavigated_handleEvent:
  "userNavigated (handleEvent s e) = userNavigated s"
  by (cases e rule: handleEvent_cases)
     (simp_all add: handleEvent_meta handleEvent_unmapped handleEvent_mapped
        handleEvent_inherited)

lemma pinned_handleEvent:
  "userNavigated s \<Longrightarrow> viewedStep (handleEvent s e) = viewedStep s"
  by (cases e rule: handleEvent_cases)
     (simp_all add: handleEvent_meta handleEvent_unmapped handleEvent_mapped
        handleEvent_inherited)

lemma userNavigated_run:
  "userNavigated s \<Longrightarrow> userNavigated (run_operations s ops)"
proof (induction ops arbitrary: s)
  case Nil
  then show ?case by (simp add: run_operations_def)
next
  case (Cons a ops)
  from Cons.prems have "userNavigated (apply_operation s a)"
    by (cases a) (simp_all add: userNavigated_handleEvent navigateToStep_def cancel_def)
  with Cons.IH show ?case by (simp add: run_operations_def)
qed

lemma pinned_events:
  "userNavigated s \<Longrightarrow>
     viewedStep (foldl handleEvent s events) = viewedStep s
     \<and> userNavigated (foldl handleEvent s events)"
  by (induction events arbitrary: s) (simp_all add: pinned_handleEvent userNavigated_handleEvent)

text \<open>
  What holds of the view. From the start of a run, as long as no operation is a
  navigation and no event names a step that the table inherits, the viewed step
  strictly equals the active step after every sequence of operations.
\<close>

lemma following_until_navigate_own_steps:
  "\<not> list_ex is_navigate ops \<Longrightarrow> list_all eventsOwnOrAbsent ops \<Longrightarrow>
     strictEquals (viewedStep (run_operations (startReset s0) ops))
       (activeStep (run_operations (startReset s0) ops))"
  using following_run [of ops "startReset s0"] following_startReset [of s0]
  by (simp add: following_def)

text \<open>
  After a navigation the navigation flag stays set whatever operations follow, no
  event handled from then on changes the viewed step, whatever step it names, and
  along a sequence of events the viewed step stays where the navigation put it.
\<close>

lemma pinned_after_navigate:
  "userNavigated (run_operations (navigateToStep s x) ops)
   \<and> viewedStep (handleEvent (run_operations (navigateToStep s x) ops) event)
        = viewedStep (run_operations (navigateToStep s x) ops)
   \<and> viewedStep (foldl handleEvent (navigateToStep s x) events)
        = viewedStep (navigateToStep s x)"
proof -
  have nav: "userNavigated (navigateToStep s x)"
    by (simp add: navigateToStep_def)
  then have b: "userNavigated (run_operations (navigateToStep s x) ops)"
    by (rule userNavigated_run)
  from b have c: "viewedStep (handleEvent (run_operations (navigateToStep s x) ops) event)
        = viewedStep (run_operations (navigateToStep s x) ops)"
    by (rule pinned_handleEvent)
  from nav have d: "viewedStep (foldl handleEvent (navigateToStep s x) events)
        = viewedStep (navigateToStep s x)"
    by (simp add: pinned_events)
  from b c d show ?thesis by blast
qed


subsection \<open>Ordinals and the registry\<close>

lemma in_range_handleEvent:
  assumes "ownOrAbsent e" "in_range s"
  shows "in_range (handleEvent s e)"
proof (cases e rule: handleEvent_cases)
  case meta
  with assms(2) show ?thesis by (simp add: in_range_def handleEvent_meta)
next
  case unmapped
  with assms(2) show ?thesis by (simp add: handleEvent_unmapped)
next
  case (mapped n)
  then have "1 \<le> n \<and> n \<le> MAX_STEP" by (rule STEP_INDEX_MAP_range)
  with assms(2) mapped show ?thesis
    by (auto simp: in_range_def handleEvent_mapped)
next
  case inherited
  with assms(1) show ?thesis by (simp add: ownOrAbsent_def)
qed

lemma in_range_run:
  "list_all eventsOwnOrAbsent ops \<Longrightarrow> in_range s \<Longrightarrow> in_range (run_operations s ops)"
proof (induction ops arbitrary: s)
  case Nil
  then show ?case by (simp add: run_operations_def)
next
  case (Cons a ops)
  from Cons.prems have "in_range (apply_operation s a)"
    by (cases a)
       (simp_all add: in_range_handleEvent, simp_all add: in_range_def navigateToStep_def cancel_def)
  with Cons show ?case by (simp add: run_operations_def)
qed

lemma in_range_startReset: "in_range (startReset s)"
  by (simp add: in_range_def startReset_def MAX_STEP_def)

lemma zero_completed_run:
  "Ordinal 0 \<in> completedSteps s \<Longrightarrow> Ordinal 0 \<in> completedSteps (run_operations s ops)"
proof (induction ops arbitrary: s)
  case Nil
  then show ?case by (simp add: run_operations_def)
next
  case (Cons a ops)
  have "completedSteps s \<subseteq> completedSteps (apply_operation s a)"
  proof (cases a)
    case (Event e)
    then show ?thesis
      by (cases e rule: handleEvent_cases)
         (auto simp: handleEvent_meta handleEvent_unmapped handleEvent_mapped
            handleEvent_inherited)
  qed (simp_all add: navigateToStep_def cancel_def)
  with Cons.prems have "Ordinal 0 \<in> completedSteps (apply_operation s a)" by blast
  with Cons.IH show ?case by (simp add: run_operations_def)
qed

lemma stepData_zero_handleEvent:
  "stepData (handleEvent s e) (Ordinal 0) = stepData s (Ordinal 0)"
proof (cases e rule: handleEvent_cases)
  case (mapped n)
  then have "1 \<le> n" using STEP_INDEX_MAP_range by blast
  with mapped show ?thesis by (simp add: handleEvent_mapped)
qed (simp_all add: handleEvent_meta handleEvent_unmapped handleEvent_inherited)

text \<open>
  What holds of the ordinals. After the start of a run and any sequence of events,
  navigations and cancellations in which no event names a step that the table
  inherits, every completed ordinal lies in \<open>[0, MAX_STEP]\<close> and every key of the step
  data in \<open>[1, MAX_STEP]\<close>. Whatever the events, ordinal 0 stays completed, the reducer
  leaves the step data of ordinal 0 as it is, and a declared identifier maps into
  \<open>[1, MAX_STEP]\<close>.
\<close>

lemma ordinals_in_range_own_steps:
  "(list_all eventsOwnOrAbsent ops \<longrightarrow>
      (\<forall>k \<in> completedSteps (run_operations (startReset s0) ops). ordinalBetween 0 MAX_STEP k)
      \<and> (\<forall>k \<in> dom (stepData (run_operations (startReset s0) ops)).
            ordinalBetween 1 MAX_STEP k))
   \<and> Ordinal 0 \<in> completedSteps (run_operations (startReset s0) ops)
   \<and> stepData (handleEvent s event) (Ordinal 0) = stepData s (Ordinal 0)
   \<and> (\<forall>n. STEP_INDEX_MAP (step event) = Some n \<longrightarrow> 1 \<le> n \<and> n \<le> MAX_STEP)"
proof -
  have "list_all eventsOwnOrAbsent ops \<Longrightarrow> in_range (run_operations (startReset s0) ops)"
    by (simp add: in_range_run in_range_startReset)
  moreover have "Ordinal 0 \<in> completedSteps (run_operations (startReset s0) ops)"
    by (rule zero_completed_run) (simp add: startReset_def)
  ultimately show ?thesis
    using stepData_zero_handleEvent STEP_INDEX_MAP_range
    by (simp add: in_range_def)
qed

text \<open>
  Claim C9 says that every completed ordinal and every key of the step data lies in
  \<open>[0, MAX_STEP]\<close>, since every mapped identifier resolves to an ordinal in
  \<open>[1, MAX_STEP]\<close>. The reducer breaks this on an event whose step is a name that the
  step table inherits: for a \<^verbatim>\<open>done\<close> event with step \<^verbatim>\<open>"constructor"\<close> right after the
  start of a run, the lookup returns the inherited value, which becomes a member of
  the completed set and a key of the step data, and the active step becomes \<^verbatim>\<open>NaN\<close>.
\<close>

theorem inherited_step_leaves_registry:
  "lookupStep (step (plainEvent ''constructor'' ''done'' [])) = Some (Inherited ''constructor'')
   \<and> completedSteps (run_operations (startReset initialState)
        [Event (plainEvent ''constructor'' ''done'' [])])
       = {Inherited ''constructor'', Ordinal 0}
   \<and> \<not> ordinalBetween 0 MAX_STEP (Inherited ''constructor'')
   \<and> stepData (run_operations (startReset initialState)
        [Event (plainEvent ''constructor'' ''done'' [])]) (Inherited ''constructor'')
       = Some (eventData (plainEvent ''constructor'' ''done'' []))
   \<and> activeStep (run_operations (startReset initialState)
        [Event (plainEvent ''constructor'' ''done'' [])]) = NaN"
proof -
  have k: "step (plainEvent ''constructor'' ''done'' []) \<in> set OBJECT_PROTOTYPE_KEYS"
    by (simp add: plainEvent_def OBJECT_PROTOTYPE_KEYS_def)
  have "lookupStep (step (plainEvent ''constructor'' ''done'' []))
          = Some (Inherited (step (plainEvent ''constructor'' ''done'' [])))"
    using k by (rule lookupStep_inherited)
  then have l: "lookupStep (step (plainEvent ''constructor'' ''done'' []))
          = Some (Inherited ''constructor'')"
    by (simp add: plainEvent_def)
  have h: "handleEvent (startReset initialState) (plainEvent ''constructor'' ''done'' [])
      = (startReset initialState)
          \<lparr>stepData := (stepData (startReset initialState))
             (Inherited ''constructor'' \<mapsto> eventData (plainEvent ''constructor'' ''done'' [])),
           completedSteps := insert (Inherited ''constructor'')
             (completedSteps (startReset initialState)),
           activeStep := NaN, viewedStep := NaN\<rparr>"
    using handleEvent_inherited [OF k, of "startReset initialState"]
    by (simp add: plainEvent_def startReset_def)
  have c: "completedSteps (startReset initialState) = {Ordinal 0}"
    by (simp add: startReset_def)
  show ?thesis
    by (simp add: run_operations_def h l c)
qed

section \<open>Properties of the stream decoder\<close>

lemma split_nl_not_Nil: "split_nl t \<noteq> []"
  by (induction t) simp_all

lemma split_nl_no_newline: "newline \<notin> set t \<Longrightarrow> split_nl t = [t]"
  by (induction t) auto

lemma split_nl_line: "newline \<notin> set l \<Longrightarrow> split_nl (l @ newline # t) = l # split_nl t"
  by (induction l) auto

lemma split_nl_append:
  "split_nl (a @ b) =
     butlast (split_nl a) @ (last (split_nl a) @ hd (split_nl b)) # tl (split_nl b)"
proof (induction a)
  case Nil
  show ?case by (simp add: split_nl_not_Nil)
next
  case (Cons c a)
  show ?case
  proof (cases "c = newline")
    case True
    with Cons show ?thesis by (simp add: split_nl_not_Nil)
  next
    case False
    show ?thesis
    proof (cases "butlast (split_nl a)")
      case Nil
      then have "split_nl a = [last (split_nl a)]"
        by (metis append_butlast_last_id append_Nil split_nl_not_Nil)
      then obtain x where x: "split_nl a = [x]" by blast
      with Cons False show ?thesis by simp
    next
      case (Cons y ys)
      then have "split_nl a = (y # ys) @ [last (split_nl a)]"
        by (metis append_butlast_last_id split_nl_not_Nil)
      then obtain z where z: "split_nl a = y # ys @ [z]" by simp
      with Cons.IH False show ?thesis by simp
    qed
  qed
qed

lemma split_nl_pieces: "l \<in> set (split_nl t) \<Longrightarrow> newline \<notin> set l"
proof (induction t arbitrary: l)
  case Nil
  then show ?case by simp
next
  case (Cons c cs)
  show ?case
  proof (cases "c = newline")
    case True
    with Cons show ?thesis by auto
  next
    case False
    with Cons.prems have "l = c # hd (split_nl cs) \<or> l \<in> set (tl (split_nl cs))"
      by simp
    then show ?thesis
    proof
      assume "l = c # hd (split_nl cs)"
      moreover have "hd (split_nl cs) \<in> set (split_nl cs)"
        by (simp add: split_nl_not_Nil)
      ultimately show ?thesis using Cons.IH False by auto
    next
      assume "l \<in> set (tl (split_nl cs))"
      then have "l \<in> set (split_nl cs)" by (rule list.set_sel(2) [OF split_nl_not_Nil])
      then show ?thesis by (rule Cons.IH)
    qed
  qed
qed

lemma last_split_nl_no_newline: "newline \<notin> set (last (split_nl t))"
  by (rule split_nl_pieces [of _ t]) (simp add: split_nl_not_Nil)

lemma processLines_append:
  "processLines parse s (xs @ ys) = processLines parse (processLines parse s xs) ys"
  by (simp add: processLines_def)

lemma readLoop_lines:
  "newline \<notin> set buffer \<Longrightarrow>
     readLoop parse (s, buffer) chunks =
       (processLines parse s (butlast (split_nl (buffer @ concat chunks))),
        last (split_nl (buffer @ concat chunks)))"
proof (induction chunks arbitrary: s buffer)
  case Nil
  then show ?case by (simp add: split_nl_no_newline processLines_def)
next
  case (Cons chunk rest)
  let ?lines = "split_nl (buffer @ chunk)"
  let ?more = "split_nl (last ?lines @ concat rest)"
  have clean: "newline \<notin> set (last ?lines)"
    by (rule last_split_nl_no_newline)
  have "split_nl ((buffer @ chunk) @ concat rest) =
          butlast ?lines @ (last ?lines @ hd (split_nl (concat rest))) # tl (split_nl (concat rest))"
    by (rule split_nl_append)
  moreover have "?more = (last ?lines @ hd (split_nl (concat rest))) # tl (split_nl (concat rest))"
    using split_nl_append [of "last ?lines" "concat rest"] clean
    by (simp add: split_nl_no_newline)
  ultimately have whole: "split_nl (buffer @ concat (chunk # rest)) = butlast ?lines @ ?more"
    by simp
  have "readLoop parse (s, buffer) (chunk # rest) =
          readLoop parse (processLines parse s (butlast ?lines), last ?lines) rest"
    by (simp add: Let_def)
  also have "\<dots> = (processLines parse (processLines parse s (butlast ?lines)) (butlast ?more),
                      last ?more)"
    using clean by (rule Cons.IH)
  also have "\<dots> = (processLines parse s (butlast (butlast ?lines @ ?more)),
                      last (butlast ?lines @ ?more))"
    by (simp add: processLines_append butlast_append split_nl_not_Nil)
  finally show ?case by (simp only: whole)
qed

lemma decodeStream_lines:
  "decodeStream parse s chunks = processLines parse s (butlast (split_nl (concat chunks)))"
  using readLoop_lines [of "[]" parse s chunks] by (simp add: decodeStream_def)

lemma split_nl_frame:
  "\<forall>l \<in> set lines. newline \<notin> set l \<Longrightarrow> newline \<notin> set rest \<Longrightarrow>
     split_nl (frame lines @ rest) = lines @ [rest]"
proof (induction lines)
  case Nil
  then show ?case by (simp add: frame_def split_nl_no_newline)
next
  case (Cons l ls)
  then have "split_nl (frame ls @ rest) = ls @ [rest]" by simp
  moreover have "frame (l # ls) @ rest = l @ newline # (frame ls @ rest)"
    by (simp add: frame_def)
  moreover from Cons.prems have "newline \<notin> set l" by simp
  ultimately show ?case by (simp add: split_nl_line)
qed

lemma decodeStream_frame:
  "\<forall>l \<in> set lines. newline \<notin> set l \<Longrightarrow> newline \<notin> set rest \<Longrightarrow>
     concat chunks = frame lines @ rest \<Longrightarrow>
     decodeStream parse s chunks = processLines parse s lines"
  by (simp add: decodeStream_lines split_nl_frame)

lemma processLine_malformed: "malformed parse line \<Longrightarrow> processLine parse s line = s"
  by (auto simp: malformed_def processLine_def)

lemma processLines_malformed:
  "malformed parse bad \<Longrightarrow>
     processLines parse s (before @ bad # after) = processLines parse s (before @ after)"
  by (simp add: processLines_def processLine_malformed)

lemma butlast_split_nl_rest:
  "newline \<notin> set rest \<Longrightarrow> butlast (split_nl (t @ rest)) = butlast (split_nl t)"
  using split_nl_append [of t rest] by (simp add: split_nl_no_newline butlast_append)

lemma startPipeline_normal_end:
  assumes "start_ok r" "run_id r = Returned rid" "stream_ok sr" "has_body sr"
    "body_ending sr = Returned u"
  shows "fst (startPipeline parse (Returned r) (Returned sr) urls w) =
           (decodeStream parse (startReset (fst w)) (body_chunks sr))\<lparr>isRunning := False\<rparr>"
  using assms by (simp add: startPipeline_def Let_def)

text \<open>
  Claim C6. A line that lacks the prefix \<^verbatim>\<open>"data: "\<close> or whose payload does not parse
  leaves the whole state as it is, and the lines after it are handled as if it were
  not there: over the lines of one read, and over a whole stream however it is cut
  into chunks, the result is that of the same lines without the malformed one.
\<close>

theorem malformed_line_skipped:
  "malformed parse bad \<Longrightarrow>
     processLine parse s bad = s
     \<and> processLines parse s (before @ bad # after) = processLines parse s (before @ after)
     \<and> ((\<forall>l \<in> set (before @ bad # after). newline \<notin> set l) \<and> newline \<notin> set rest
          \<and> concat chunks = frame (before @ bad # after) @ rest \<longrightarrow>
        decodeStream parse s chunks = processLines parse s (before @ after))"
  using decodeStream_frame [of "before @ bad # after" rest chunks parse s]
  by (simp add: processLine_malformed processLines_malformed)

theorem malformed_line_skipped_witness:
  "malformed demoParse ''data: {oops''
   \<and> malformed demoParse ''event: clone-done''
   \<and> handleEvent (startReset initialState) (plainEvent ''clone'' ''running'' [''cloning''])
       \<noteq> startReset initialState
   \<and> decodeStream demoParse (startReset initialState)
        [''data: clone-run'',
         ''ning'' @ [newline] @ ''data: {oops'' @ [newline] @ ''data: clone-d'',
         ''one'' @ [newline] @ ''data: clo'']
       = handleEvent
           (handleEvent (startReset initialState) (plainEvent ''clone'' ''running'' [''cloning'']))
           (plainEvent ''clone'' ''done'' [''cloned''])
   \<and> processLine demoParse (startReset initialState) ''event: clone-done''
       = startReset initialState"
proof -
  let ?s = "startReset initialState"
  let ?chunks = "[''data: clone-run'',
         ''ning'' @ [newline] @ ''data: {oops'' @ [newline] @ ''data: clone-d'',
         ''one'' @ [newline] @ ''data: clo'']"
  have a: "malformed demoParse ''data: {oops''"
    by (simp add: malformed_def startsWith_def demoParse_def)
  have b: "malformed demoParse ''event: clone-done''"
    by (simp add: malformed_def startsWith_def)
  have c: "handleEvent ?s (plainEvent ''clone'' ''running'' [''cloning'']) \<noteq> ?s"
  proof
    assume "handleEvent ?s (plainEvent ''clone'' ''running'' [''cloning'']) = ?s"
    then have "stepData (handleEvent ?s (plainEvent ''clone'' ''running'' [''cloning'']))
          (Ordinal 1)
        = stepData ?s (Ordinal 1)"
      by simp
    then show False
      by (simp add: handleEvent_def lookupStep_def startReset_def plainEvent_def
            STEP_INDEX_MAP_def Let_def)
  qed
  have d: "processLines demoParse ?s ([''data: clone-running''] @ [''data: clone-done''])
           = handleEvent
               (handleEvent ?s (plainEvent ''clone'' ''running'' [''cloning'']))
               (plainEvent ''clone'' ''done'' [''cloned''])"
    by (simp add: processLines_def processLine_def startsWith_def demoParse_def)
  have h1: "\<forall>l \<in> set ([''data: clone-running''] @ ''data: {oops'' # [''data: clone-done'']).
              newline \<notin> set l"
    by (simp add: newline_def)
  have h2: "newline \<notin> set ''data: clo''"
    by (simp add: newline_def)
  have h3: "concat ?chunks
      = frame ([''data: clone-running''] @ ''data: {oops'' # [''data: clone-done''])
          @ ''data: clo''"
    by (simp add: frame_def)
  have "decodeStream demoParse ?s ?chunks
      = processLines demoParse ?s ([''data: clone-running''] @ [''data: clone-done''])"
    using malformed_line_skipped [OF a, of ?s "[''data: clone-running'']"
        "[''data: clone-done'']" "''data: clo''" ?chunks] h1 h2 h3
    by blast
  with d have e: "decodeStream demoParse ?s ?chunks
      = handleEvent
               (handleEvent ?s (plainEvent ''clone'' ''running'' [''cloning'']))
               (plainEvent ''clone'' ''done'' [''cloned''])"
    by simp
  have f: "processLine demoParse ?s ''event: clone-done'' = ?s"
    using malformed_line_skipped [OF b, of ?s "[]" "[]" "[]" "[]"] by blast
  from a b c e f show ?thesis by blast
qed

text \<open>
  Claim C10. Decoding a stream that ends is handling the lines of the whole text that
  a newline closes, in order: the piece after the last newline never reaches the
  reducer, so appending text without a newline to the stream changes nothing, and two
  ways of cutting the same text into chunks give the same state. When the stream
  ends normally, \<^verbatim>\<open>startPipeline\<close> leaves that state with the running flag cleared.
\<close>

theorem unterminated_tail_discarded:
  "decodeStream parse s chunks = processLines parse s (butlast (split_nl (concat chunks)))
   \<and> (newline \<notin> set rest \<longrightarrow>
        decodeStream parse s (chunks @ [rest]) = decodeStream parse s chunks)
   \<and> (concat chunks = concat chunks' \<longrightarrow>
        decodeStream parse s chunks = decodeStream parse s chunks')
   \<and> ((\<forall>l \<in> set lines. newline \<notin> set l) \<and> newline \<notin> set rest
        \<and> concat chunks = frame lines @ rest \<longrightarrow>
      decodeStream parse s chunks = processLines parse s lines)
   \<and> (start_ok r \<and> run_id r = Returned rid \<and> stream_ok sr \<and> has_body sr
        \<and> body_ending sr = Returned u \<longrightarrow>
      fst (startPipeline parse (Returned r) (Returned sr) urls w) =
        (processLines parse (startReset (fst w))
           (butlast (split_nl (concat (body_chunks sr)))))\<lparr>isRunning := False\<rparr>)"
  using decodeStream_frame [of lines rest chunks parse s]
  by (simp add: decodeStream_lines butlast_split_nl_rest startPipeline_normal_end)

theorem unterminated_tail_discarded_witness:
  "decodeStream demoParse (startReset initialState)
      [''data: clone-running'' @ [newline] @ ''data: clone'', ''-done'']
     = handleEvent (startReset initialState) (plainEvent ''clone'' ''running'' [''cloning''])
   \<and> decodeStream demoParse (startReset initialState)
      [''data: clone-running'' @ [newline] @ ''data: clone'', ''-done'', [newline]]
     = handleEvent
         (handleEvent (startReset initialState) (plainEvent ''clone'' ''running'' [''cloning'']))
         (plainEvent ''clone'' ''done'' [''cloned''])"
proof -
  let ?s = "startReset initialState"
  let ?chunks = "[''data: clone-running'' @ [newline] @ ''data: clone'', ''-done'']"
  have a: "processLines demoParse ?s [''data: clone-running'']
           = handleEvent ?s (plainEvent ''clone'' ''running'' [''cloning''])"
    by (simp add: processLines_def processLine_def startsWith_def demoParse_def)
  have b: "processLines demoParse ?s [''data: clone-running'', ''data: clone-done'']
           = handleEvent
               (handleEvent ?s (plainEvent ''clone'' ''running'' [''cloning'']))
               (plainEvent ''clone'' ''done'' [''cloned''])"
    by (simp add: processLines_def processLine_def startsWith_def demoParse_def)
  have h1: "\<forall>l \<in> set [''data: clone-running'']. newline \<notin> set l"
    by (simp add: newline_def)
  have h2: "newline \<notin> set ''data: clone-done''"
    by (simp add: newline_def)
  have h3: "concat ?chunks = frame [''data: clone-running''] @ ''data: clone-done''"
    by (simp add: frame_def)
  have "decodeStream demoParse ?s ?chunks = processLines demoParse ?s [''data: clone-running'']"
    using h1 h2 h3
    by (rule unterminated_tail_discarded
          [THEN conjunct2, THEN conjunct2, THEN conjunct2, THEN conjunct1, rule_format,
           OF conjI, OF _ conjI])
  with a have 1: "decodeStream demoParse ?s ?chunks
      = handleEvent ?s (plainEvent ''clone'' ''running'' [''cloning''])"
    by simp
  have k1: "\<forall>l \<in> set [''data: clone-running'', ''data: clone-done'']. newline \<notin> set l"
    by (simp add: newline_def)
  have k2: "newline \<notin> set []"
    by simp
  have k3: "concat (?chunks @ [[newline]])
      = frame [''data: clone-running'', ''data: clone-done''] @ []"
    by (simp add: frame_def)
  have "decodeStream demoParse ?s (?chunks @ [[newline]])
      = processLines demoParse ?s [''data: clone-running'', ''data: clone-done'']"
    using k1 k2 k3
    by (rule unterminated_tail_discarded
          [THEN conjunct2, THEN conjunct2, THEN conjunct2, THEN conjunct1, rule_format,
           OF conjI, OF _ conjI])
  with b have 2: "decodeStream demoParse ?s (?chunks @ [[newline]])
      = handleEvent
               (handleEvent ?s (plainEvent ''clone'' ''running'' [''cloning'']))
               (plainEvent ''clone'' ''done'' [''cloned''])"
    by simp
  from 1 2 show ?thesis by simp
qed

section \<open>Properties of starting a run\<close>

lemma trim_empty_iff: "trim u = [] \<longleftrightarrow> blank u"
proof
  assume "trim u = []"
  then have all: "\<forall>c \<in> set (dropWhile isWhiteSpace u). isWhiteSpace c"
    by (simp add: trim_def dropWhile_eq_Nil_conv)
  have "dropWhile isWhiteSpace u = []"
  proof (rule ccontr)
    assume ne: "dropWhile isWhiteSpace u \<noteq> []"
    then have "\<not> isWhiteSpace (hd (dropWhile isWhiteSpace u))" by (rule hd_dropWhile)
    moreover from ne have "hd (dropWhile isWhiteSpace u) \<in> set (dropWhile isWhiteSpace u)"
      by simp
    ultimately show False using all by blast
  qed
  then show "blank u"
    by (induction u) (simp_all add: blank_def split: if_splits)
next
  assume "blank u"
  then have "dropWhile isWhiteSpace u = []"
    by (induction u) (simp_all add: blank_def)
  then show "trim u = []" by (auto simp: trim_def dest: set_dropWhileD)
qed

lemma handleStart_blank: "list_all blank urls \<Longrightarrow> handleStart urls onStart w = w"
proof -
  assume "list_all blank urls"
  then have "filter (\<lambda>u. trim u \<noteq> []) urls = []"
    by (simp add: trim_empty_iff list_all_iff filter_empty_conv)
  then show ?thesis by (simp add: handleStart_def)
qed

lemma handleStart_not_blank:
  "\<not> list_all blank urls \<Longrightarrow>
     handleStart urls onStart w = onStart (filter (\<lambda>u. \<not> blank u) urls) w"
proof -
  assume "\<not> list_all blank urls"
  then have "filter (\<lambda>u. \<not> blank u) urls \<noteq> []"
    by (simp add: list_all_iff filter_empty_conv)
  then show ?thesis by (simp add: handleStart_def trim_empty_iff)
qed

lemma startPipeline_posts:
  "take (Suc (length (snd w))) (snd (startPipeline parse startRes streamRes urls w))
     = snd w @ [PostStart urls]"
  by (simp add: startPipeline_def Let_def split: outcome.splits)

text \<open>
  Claim C4. When every identifier handed to \<^verbatim>\<open>handleStart\<close> is blank (only white
  space, or empty; in particular when the list is empty), the callback is not called:
  with \<^verbatim>\<open>startPipeline\<close> as the callback no request is issued and the state, the
  running flag included, is as before. Otherwise the callback is called with the
  identifiers that are not blank, and the first thing \<^verbatim>\<open>startPipeline\<close> issues is the
  submission request for them.
\<close>

theorem blank_start_rejected:
  "(list_all blank urls \<longrightarrow>
      handleStart urls onStart w = w
      \<and> handleStart urls (startPipeline parse startRes streamRes) (s, log) = (s, log))
   \<and> (\<not> list_all blank urls \<longrightarrow>
      handleStart urls onStart w = onStart (filter (\<lambda>u. \<not> blank u) urls) w
      \<and> take (Suc (length log))
          (snd (handleStart urls (startPipeline parse startRes streamRes) (s, log)))
        = log @ [PostStart (filter (\<lambda>u. \<not> blank u) urls)])"
  using startPipeline_posts [of "(s, log)" parse startRes streamRes]
  by (simp add: handleStart_blank handleStart_not_blank)

theorem blank_start_rejected_witness:
  "list_all blank [[], ''   '', [CHR 0x09, CHR 0x20, CHR 0x0A]]
   \<and> handleStart [[], ''   '', [CHR 0x09, CHR 0x20, CHR 0x0A]]
        (startPipeline demoParse (Threw ''TypeError'' ''Failed to fetch'') (Threw [] []))
        (initialState, [])
       = (initialState, [])
   \<and> handleStart ([] :: string list)
        (startPipeline demoParse (Threw ''TypeError'' ''Failed to fetch'') (Threw [] []))
        (initialState, [])
       = (initialState, [])
   \<and> \<not> list_all blank [''u1'', '' '', '' u2 '']
   \<and> snd (handleStart [''u1'', '' '', '' u2 '']
        (startPipeline demoParse (Threw ''TypeError'' ''Failed to fetch'') (Threw [] []))
        (initialState, []))
       = [PostStart [''u1'', '' u2 '']]"
proof -
  let ?start = "startPipeline demoParse (Threw ''TypeError'' ''Failed to fetch'') (Threw [] [])"
  have a: "list_all blank [[], ''   '', [CHR 0x09, CHR 0x20, CHR 0x0A]]"
    by (simp add: blank_def isWhiteSpace_def)
  have b: "\<not> list_all blank [''u1'', '' '', '' u2 '']"
    by (simp add: blank_def isWhiteSpace_def)
  have c: "filter (\<lambda>u. \<not> blank u) [''u1'', '' '', '' u2 ''] = [''u1'', '' u2 '']"
    by (simp add: blank_def isWhiteSpace_def)
  have d: "snd (?start [''u1'', '' u2 ''] (initialState, [])) = [PostStart [''u1'', '' u2 '']]"
    by (simp add: startPipeline_def)
  from a have 1: "handleStart [[], ''   '', [CHR 0x09, CHR 0x20, CHR 0x0A]] ?start
       (initialState, []) = (initialState, [])"
    using blank_start_rejected [of "[[], ''   '', [CHR 0x09, CHR 0x20, CHR 0x0A]]" ?start
        "(initialState, [])" demoParse "Threw ''TypeError'' ''Failed to fetch''" "Threw [] []"
        initialState "[]"]
    by blast
  have 2: "handleStart [] ?start (initialState, []) = (initialState, [])"
    using blank_start_rejected [of "[]" ?start
        "(initialState, [])" demoParse "Threw ''TypeError'' ''Failed to fetch''" "Threw [] []"
        initialState "[]"]
    by simp
  from b have "handleStart [''u1'', '' '', '' u2 ''] ?start (initialState, [])
       = ?start (filter (\<lambda>u. \<not> blank u) [''u1'', '' '', '' u2 '']) (initialState, [])"
    using blank_start_rejected [of "[''u1'', '' '', '' u2 '']" ?start
        "(initialState, [])" demoParse "Threw ''TypeError'' ''Failed to fetch''" "Threw [] []"
        initialState "[]"]
    by blast
  with c d have 3: "snd (handleStart [''u1'', '' '', '' u2 ''] ?start (initialState, []))
       = [PostStart [''u1'', '' u2 '']]"
    by simp
  from a b 1 2 3 show ?thesis by blast
qed

end
